theory Spec2Isabelle
  imports Main "HOL-Library.Word"
begin

section \<open>Data model of the exporter (src/main.go, lines 13-33)\<close>

text \<open>
  Go's \<open>int\<close> is a two's-complement machine integer; on the 64-bit targets it has 64
  bits, and \<open>+= 1\<close> wraps around. The counters are therefore 64-bit words, read as
  signed numbers with \<open>sint\<close>.
\<close>

type_synonym go_int = "64 word"

definition Namespace :: string where
  "Namespace = ''dns_exporter''"

record Config =
  Hosts :: "string list"

text \<open>
  The Prometheus client library is not part of the repository. A descriptor is kept as
  the record of the arguments \<open>NewDesc\<close> receives, a metric as the record of the
  arguments \<open>MustNewConstMetric\<close> receives (the program always passes one label value
  for the one variable label of the descriptor). \<open>BuildFQName\<close> follows the library's
  documentation: the non-empty components are joined by an underscore, and an empty
  name gives the empty string. The checks the library makes on label values are not
  modelled: host names are taken to be strings it accepts.
\<close>

record Desc =
  fqName :: string
  helpStr :: string
  variableLabels :: "string list"
  constLabels :: "(string \<times> string) list"

definition BuildFQName :: "string \<Rightarrow> string \<Rightarrow> string \<Rightarrow> string" where
  "BuildFQName namespace subsystem name =
     (if name = [] then []
      else if namespace \<noteq> [] \<and> subsystem \<noteq> [] then namespace @ ''_'' @ subsystem @ ''_'' @ name
      else if namespace \<noteq> [] then namespace @ ''_'' @ name
      else if subsystem \<noteq> [] then subsystem @ ''_'' @ name
      else name)"

definition NewDesc :: "string \<Rightarrow> string \<Rightarrow> string list \<Rightarrow> (string \<times> string) list \<Rightarrow> Desc" where
  "NewDesc fq hlp vls cls =
     \<lparr>fqName = fq, helpStr = hlp, variableLabels = vls, constLabels = cls\<rparr>"

datatype ValueType = CounterValue | GaugeValue

text \<open>
  The value of a sample is a \<open>float64\<close>. The two conversions the program applies,
  \<open>float64(n)\<close> of a counter and \<open>d.Seconds()\<close> of a duration in nanoseconds, are kept
  symbolic, so that the sample shows the integer it was made from.
\<close>

datatype float64 = Float64OfInt go_int | Seconds nat

record Metric =
  desc :: Desc
  valueType :: ValueType
  val :: float64
  labelValues :: "string list"

definition MustNewConstMetric :: "Desc \<Rightarrow> ValueType \<Rightarrow> float64 \<Rightarrow> string list \<Rightarrow> Metric" where
  "MustNewConstMetric d vt v lvs = \<lparr>desc = d, valueType = vt, val = v, labelValues = lvs\<rparr>"

text \<open>
  The struct \<open>DNSCollector\<close>. A \<open>sync.Mutex\<close> is locked or not. A Go map is a partial
  function; reading a missing key gives the zero value.
\<close>

record DNSCollector =
  totalDesc :: Desc
  totalError :: Desc
  latency :: Desc
  hosts :: "string list"
  totalCount :: "string \<rightharpoonup> go_int"
  totalCountMutex :: bool
  totalErrorCount :: "string \<rightharpoonup> go_int"
  totalErrorCountMutex :: bool

definition map_index :: "(string \<rightharpoonup> go_int) \<Rightarrow> string \<Rightarrow> go_int" where
  "map_index m k = (case m k of None \<Rightarrow> 0 | Some v \<Rightarrow> v)"

definition map_incr :: "(string \<rightharpoonup> go_int) \<Rightarrow> string \<Rightarrow> (string \<rightharpoonup> go_int)" where
  "map_incr m k = m(k \<mapsto> map_index m k + 1)"

section \<open>The constructor (lines 35-63) and Describe (lines 65-69)\<close>

text \<open>
  \<open>NewDNSCollector\<close> returns a pointer and an error: \<open>Some\<close> is a non-nil pointer,
  \<open>None\<close> in the second component is the nil error. The zero value of a mutex is an
  unlocked mutex.
\<close>

definition NewDNSCollector :: "Config \<Rightarrow> DNSCollector option \<times> string option" where
  "NewDNSCollector config =
     (Some \<lparr>totalDesc = NewDesc (BuildFQName Namespace [] ''resolution_total'')
                ''Total number of DNS resolutions.'' [''host''] [],
            totalError = NewDesc (BuildFQName Namespace [] ''resolution_error_total'')
                ''Total number of DNS resolution errors.'' [''host''] [],
            latency = NewDesc (BuildFQName Namespace [] ''resolution_seconds'')
                ''Time taken to resolve DNS.'' [''host''] [],
            hosts = Hosts config,
            totalCount = Map.empty,
            totalCountMutex = False,
            totalErrorCount = Map.empty,
            totalErrorCountMutex = False\<rparr>,
      None)"

definition Describe :: "DNSCollector \<Rightarrow> Desc list" where
  "Describe e = [totalDesc e, totalError e, latency e]"

section \<open>One probe: resolveHost (lines 87-108)\<close>

text \<open>
  What the environment decides for one probe: the clock reading of line 88, the result
  of \<open>net.LookupHost\<close> (\<open>None\<close> is the nil error, \<open>Some msg\<close> an error with that
  message), the time the lookup takes, and the time lines 92-96 take when they run
  (waiting for the mutex and writing the log line). Times are in nanoseconds.
\<close>

record probe_env =
  startT :: nat
  lookupErr :: "string option"
  lookupDur :: nat
  errDur :: nat

text \<open>The reading of the clock when line 99 runs.\<close>

definition clock99 :: "probe_env \<Rightarrow> string option \<Rightarrow> nat" where
  "clock99 en er = startT en + lookupDur en + (case er of None \<Rightarrow> 0 | Some _ \<Rightarrow> errDur en)"

text \<open>
  The text of the log line of line 96 (the logger's own prefix is left out). \<open>fmt\<close>
  prints a nil error under the verb \<open>%s\<close> as \<open>%!s(<nil>)\<close>.
\<close>

definition errString :: "string option \<Rightarrow> string" where
  "errString er = (case er of None \<Rightarrow> ''%!s(<nil>)'' | Some msg \<Rightarrow> msg)"

definition logLine :: "string \<Rightarrow> string option \<Rightarrow> string" where
  "logLine h er = ''could not lookup host '' @ [CHR 0x27] @ h @ [CHR 0x27] @ '': '' @ errString er"

text \<open>
  The state one probe works on: the collector, the channel \<open>ch\<close> (the samples sent so
  far, oldest first) and the log output. \<open>resolveHost\<close> is the body of the function in
  program order, run without any other goroutine in between and with both mutexes
  free: each \<open>Lock\<close> is followed by its \<open>Unlock\<close>, so the mutexes are left as they
  were found.
\<close>

type_synonym shared = "DNSCollector \<times> Metric list \<times> string list"

definition resolveHost :: "string \<Rightarrow> probe_env \<Rightarrow> shared \<Rightarrow> shared" where
  "resolveHost h en sh =
     (case sh of (e, chan, lg) \<Rightarrow>
        let start = startT en;
            er = lookupErr en;
            (e1, lg1) = (if er \<noteq> None
                         then (e\<lparr>totalErrorCount := map_incr (totalErrorCount e) h\<rparr>,
                               lg @ [logLine h er])
                         else (e, lg));
            elapsed = clock99 en er - start;
            e2 = e1\<lparr>totalCount := map_incr (totalCount e1) h\<rparr>;
            chan1 = chan @ [MustNewConstMetric (totalDesc e2) CounterValue
                              (Float64OfInt (map_index (totalCount e2) h)) [h]];
            chan2 = chan1 @ [MustNewConstMetric (totalError e2) CounterValue
                              (Float64OfInt (map_index (totalErrorCount e2) h)) [h]];
            chan3 = chan2 @ [MustNewConstMetric (latency e2) GaugeValue (Seconds elapsed) [h]]
        in (e2, chan3, lg1))"

section \<open>Goroutines and the collection cycle (lines 71-85)\<close>

text \<open>
  \<open>Collect\<close> starts one goroutine per host and waits for all of them, and scrapes may
  overlap, so probes interleave. A goroutine is a record of the parameter \<open>host\<close>, the
  locals \<open>start\<close>, \<open>err\<close> and \<open>elapsed\<close>, the \<open>WaitGroup\<close> it reports to, what the
  environment holds for it, and a program counter named after the source line it is
  about to run. The \<open>if\<close> of line 91 is decided in the step of line 90, and \<open>L78\<close> is the
  deferred \<open>wg.Done()\<close>. The statement \<open>m[host] += 1\<close> of lines 93 and 102 is not atomic:
  it starts the assignment to the map and then completes it; at \<open>L93w\<close> and \<open>L102w\<close> the
  goroutine is in the middle of the assignment.
\<close>

datatype pc =
    L88 | L90 | L92 | L93 | L93w | L94 | L96 | L99
  | L101 | L102 | L102w | L103 | L105 | L106 | L107 | L78 | Done

record task =
  host :: string
  env :: probe_env
  wg :: nat
  pc :: pc
  start :: nat
  err :: "string option"
  elapsed :: nat

text \<open>
  The history of the run is kept beside the state: one event for each step that reads
  the clock, calls the resolver, changes a counter, writes the log, sends a sample or
  reports to the \<open>WaitGroup\<close>, with the goroutine that took it. An increment records the
  value it wrote, a send the value it read from the counter (or the latency it sends).
\<close>

datatype event =
    EvNow nat
  | EvLookup "string option"
  | EvIncError go_int
  | EvLog
  | EvSince nat
  | EvIncAttempt go_int
  | EvSendTotal go_int
  | EvSendError go_int
  | EvSendLatency nat
  | EvWgDone

text \<open>
  The whole system: the collector, the goroutines started so far (a finished one stays
  in the list at \<open>Done\<close>), the counter of the \<open>WaitGroup\<close> of each call of \<open>Collect\<close>, the
  channel, the log, the history, and whether the runtime has aborted the process.
\<close>

record sys =
  collector :: DNSCollector
  tasks :: "task list"
  wgs :: "nat list"
  ch :: "Metric list"
  logOut :: "string list"
  trace :: "(nat \<times> event) list"
  fatal :: bool

text \<open>
  \<open>writing p ts\<close>: some goroutine is in the middle of the map assignment \<open>p\<close>. The Go
  runtime marks a map while an assignment to it is under way, and a read of the map
  that meets the mark stops the whole process (\<open>fatal error: concurrent map read and
  map write\<close>).
\<close>

definition writing :: "pc \<Rightarrow> task list \<Rightarrow> bool" where
  "writing p ts \<longleftrightarrow> list_ex (\<lambda>t. pc t = p) ts"

text \<open>
  One step of goroutine \<open>i\<close>. \<open>Lock\<close> (lines 92 and 101) waits while the mutex is
  taken: the step changes nothing then. The reads of the two maps in lines 105 and 106
  take no lock; a read while another goroutine is in the middle of an assignment to the
  same map is fatal, and any other read sees the map as the last completed assignment
  left it.
\<close>

definition goroutine_step :: "nat \<Rightarrow> sys \<Rightarrow> sys" where
  "goroutine_step i s =
     (if length (tasks s) \<le> i then s
      else
        let t = tasks s ! i; e = collector s; h = host t in
        case pc t of
          L88 \<Rightarrow>
            s\<lparr>tasks := (tasks s)[i := t\<lparr>start := startT (env t), pc := L90\<rparr>],
              trace := trace s @ [(i, EvNow (startT (env t)))]\<rparr>
        | L90 \<Rightarrow>
            s\<lparr>tasks := (tasks s)[i := t\<lparr>err := lookupErr (env t),
                                          pc := (if lookupErr (env t) \<noteq> None then L92 else L99)\<rparr>],
              trace := trace s @ [(i, EvLookup (lookupErr (env t)))]\<rparr>
        | L92 \<Rightarrow>
            if totalErrorCountMutex e then s
            else s\<lparr>collector := e\<lparr>totalErrorCountMutex := True\<rparr>,
                   tasks := (tasks s)[i := t\<lparr>pc := L93\<rparr>]\<rparr>
        | L93 \<Rightarrow>
            s\<lparr>tasks := (tasks s)[i := t\<lparr>pc := L93w\<rparr>]\<rparr>
        | L93w \<Rightarrow>
            s\<lparr>collector := e\<lparr>totalErrorCount := map_incr (totalErrorCount e) h\<rparr>,
              tasks := (tasks s)[i := t\<lparr>pc := L94\<rparr>],
              trace := trace s @ [(i, EvIncError (map_index (totalErrorCount e) h + 1))]\<rparr>
        | L94 \<Rightarrow>
            s\<lparr>collector := e\<lparr>totalErrorCountMutex := False\<rparr>,
              tasks := (tasks s)[i := t\<lparr>pc := L96\<rparr>]\<rparr>
        | L96 \<Rightarrow>
            s\<lparr>logOut := logOut s @ [logLine h (err t)],
              tasks := (tasks s)[i := t\<lparr>pc := L99\<rparr>],
              trace := trace s @ [(i, EvLog)]\<rparr>
        | L99 \<Rightarrow>
            s\<lparr>tasks := (tasks s)[i := t\<lparr>elapsed := clock99 (env t) (err t) - start t, pc := L101\<rparr>],
              trace := trace s @ [(i, EvSince (clock99 (env t) (err t) - start t))]\<rparr>
        | L101 \<Rightarrow>
            if totalCountMutex e then s
            else s\<lparr>collector := e\<lparr>totalCountMutex := True\<rparr>,
                   tasks := (tasks s)[i := t\<lparr>pc := L102\<rparr>]\<rparr>
        | L102 \<Rightarrow>
            s\<lparr>tasks := (tasks s)[i := t\<lparr>pc := L102w\<rparr>]\<rparr>
        | L102w \<Rightarrow>
            s\<lparr>collector := e\<lparr>totalCount := map_incr (totalCount e) h\<rparr>,
              tasks := (tasks s)[i := t\<lparr>pc := L103\<rparr>],
              trace := trace s @ [(i, EvIncAttempt (map_index (totalCount e) h + 1))]\<rparr>
        | L103 \<Rightarrow>
            s\<lparr>collector := e\<lparr>totalCountMutex := False\<rparr>,
              tasks := (tasks s)[i := t\<lparr>pc := L105\<rparr>]\<rparr>
        | L105 \<Rightarrow>
            if writing L102w (tasks s) then s\<lparr>fatal := True\<rparr>
            else
              s\<lparr>ch := ch s @ [MustNewConstMetric (totalDesc e) CounterValue
                                 (Float64OfInt (map_index (totalCount e) h)) [h]],
                tasks := (tasks s)[i := t\<lparr>pc := L106\<rparr>],
                trace := trace s @ [(i, EvSendTotal (map_index (totalCount e) h))]\<rparr>
        | L106 \<Rightarrow>
            if writing L93w (tasks s) then s\<lparr>fatal := True\<rparr>
            else
              s\<lparr>ch := ch s @ [MustNewConstMetric (totalError e) CounterValue
                                 (Float64OfInt (map_index (totalErrorCount e) h)) [h]],
                tasks := (tasks s)[i := t\<lparr>pc := L107\<rparr>],
                trace := trace s @ [(i, EvSendError (map_index (totalErrorCount e) h))]\<rparr>
        | L107 \<Rightarrow>
            s\<lparr>ch := ch s @ [MustNewConstMetric (latency e) GaugeValue (Seconds (elapsed t)) [h]],
              tasks := (tasks s)[i := t\<lparr>pc := L78\<rparr>],
              trace := trace s @ [(i, EvSendLatency (elapsed t))]\<rparr>
        | L78 \<Rightarrow>
            s\<lparr>wgs := (wgs s)[wg t := wgs s ! wg t - 1],
              tasks := (tasks s)[i := t\<lparr>pc := Done\<rparr>],
              trace := trace s @ [(i, EvWgDone)]\<rparr>
        | Done \<Rightarrow> s)"

text \<open>
  Lines 72-82: a new \<open>WaitGroup\<close> with counter \<open>len(e.hosts)\<close>, and one goroutine per
  host, in the order of the registry; \<open>envs j\<close> is what the environment holds for the
  probe of the \<open>j\<close>-th host.
\<close>

definition go_resolveHost :: "nat \<Rightarrow> string \<Rightarrow> probe_env \<Rightarrow> task" where
  "go_resolveHost k h en =
     \<lparr>host = h, env = en, wg = k, pc = L88, start = 0, err = None, elapsed = 0\<rparr>"

definition Collect_launch :: "(nat \<Rightarrow> probe_env) \<Rightarrow> sys \<Rightarrow> sys" where
  "Collect_launch envs s =
     s\<lparr>wgs := wgs s @ [length (hosts (collector s))],
       tasks := tasks s @
          map (\<lambda>(j, h). go_resolveHost (length (wgs s)) h (envs j))
              (enumerate 0 (hosts (collector s)))\<rparr>"

text \<open>Line 84: \<open>wg.Wait()\<close> of the \<open>k\<close>-th call of \<open>Collect\<close> returns once its counter is zero.\<close>

definition Collect_returns :: "nat \<Rightarrow> sys \<Rightarrow> bool" where
  "Collect_returns k s \<longleftrightarrow> k < length (wgs s) \<and> wgs s ! k = 0"

text \<open>
  A run of the system is a list of actions: a scrape calls \<open>Collect\<close>, and the scheduler
  lets one goroutine take its next step. Once the runtime has stopped the process
  nothing happens any more.
\<close>

datatype action = Scrape "nat \<Rightarrow> probe_env" | Sched nat

fun act :: "action \<Rightarrow> sys \<Rightarrow> sys" where
  "act (Scrape envs) s = (if fatal s then s else Collect_launch envs s)"
| "act (Sched i) s = (if fatal s then s else goroutine_step i s)"

fun exec :: "action list \<Rightarrow> sys \<Rightarrow> sys" where
  "exec [] s = s"
| "exec (a # as) s = exec as (act a s)"

definition scrapes :: "action list \<Rightarrow> nat" where
  "scrapes as = length (filter (\<lambda>a. case a of Scrape _ \<Rightarrow> True | Sched _ \<Rightarrow> False) as)"

text \<open>Lines 110-125: the collector is built once and registered, with nothing running yet.\<close>

definition register :: "DNSCollector \<Rightarrow> sys" where
  "register e =
     \<lparr>collector = e, tasks = [], wgs = [], ch = [], logOut = [], trace = [], fatal = False\<rparr>"

definition boot :: "Config \<Rightarrow> sys" where
  "boot config = register (the (fst (NewDNSCollector config)))"

text \<open>
  \<open>before tr i a b\<close>: in the history \<open>tr\<close>, wherever goroutine \<open>i\<close> took both steps,
  it took \<open>a\<close> earlier than \<open>b\<close>.
\<close>

definition before :: "(nat \<times> event) list \<Rightarrow> nat \<Rightarrow> event \<Rightarrow> event \<Rightarrow> bool" where
  "before tr i a b \<longleftrightarrow>
     (\<forall>p < length tr. \<forall>q < length tr. tr ! p = (i, a) \<and> tr ! q = (i, b) \<longrightarrow> p < q)"

section \<open>Counting probes by how far they have come\<close>

text \<open>
  A goroutine has counted its attempt once the assignment of line 102 is complete, and
  has counted its error once its lookup has failed and the assignment of line 93 is
  complete. It stands in the window between the two increments when its lookup has
  failed and it is anywhere from line 94 up to the middle of the assignment of line 102.
\<close>

definition attempted :: "task \<Rightarrow> bool" where
  "attempted t \<longleftrightarrow> pc t \<in> {L103, L105, L106, L107, L78, Done}"

definition err_counted :: "task \<Rightarrow> bool" where
  "err_counted t \<longleftrightarrow> lookupErr (env t) \<noteq> None \<and> pc t \<notin> {L88, L90, L92, L93, L93w}"

definition in_window :: "task \<Rightarrow> bool" where
  "in_window t \<longleftrightarrow> lookupErr (env t) \<noteq> None \<and> pc t \<in> {L94, L96, L99, L101, L102, L102w}"

definition attempts :: "string \<Rightarrow> task list \<Rightarrow> nat" where
  "attempts h ts = length (filter (\<lambda>t. host t = h \<and> attempted t) ts)"

definition errors :: "string \<Rightarrow> task list \<Rightarrow> nat" where
  "errors h ts = length (filter (\<lambda>t. host t = h \<and> err_counted t) ts)"

definition window :: "string \<Rightarrow> task list \<Rightarrow> nat" where
  "window h ts = length (filter (\<lambda>t. host t = h \<and> in_window t) ts)"

text \<open>
  The probes of a host started so far, and the goroutines a \<open>WaitGroup\<close> still waits for.
\<close>

definition probes :: "string \<Rightarrow> task list \<Rightarrow> nat" where
  "probes h ts = length (filter (\<lambda>t. host t = h) ts)"

definition running :: "nat \<Rightarrow> task list \<Rightarrow> nat" where
  "running k ts = length (filter (\<lambda>t. wg t = k \<and> pc t \<noteq> Done) ts)"

section \<open>The step of a goroutine, component by component\<close>

text \<open>
  \<open>moves i s\<close>: goroutine \<open>i\<close> exists, has not finished, is not held up by a mutex and
  does not read a map in the middle of an assignment. When it moves, the step changes
  the goroutine itself by \<open>step_task\<close>, records \<open>step_events\<close> (nothing for the steps of
  \<open>Lock\<close>, \<open>Unlock\<close> and the start of an assignment) and sends \<open>step_samples\<close>;
  \<open>goroutine_step\<close> is shown below to be made of these.
\<close>

definition moves :: "nat \<Rightarrow> sys \<Rightarrow> bool" where
  "moves i s \<longleftrightarrow>
     i < length (tasks s) \<and>
     (case pc (tasks s ! i) of
        L92 \<Rightarrow> \<not> totalErrorCountMutex (collector s)
      | L101 \<Rightarrow> \<not> totalCountMutex (collector s)
      | L105 \<Rightarrow> \<not> writing L102w (tasks s)
      | L106 \<Rightarrow> \<not> writing L93w (tasks s)
      | Done \<Rightarrow> False
      | _ \<Rightarrow> True)"

definition step_task :: "task \<Rightarrow> task" where
  "step_task t =
     (case pc t of
        L88 \<Rightarrow> t\<lparr>start := startT (env t), pc := L90\<rparr>
      | L90 \<Rightarrow> t\<lparr>err := lookupErr (env t), pc := (if lookupErr (env t) \<noteq> None then L92 else L99)\<rparr>
      | L92 \<Rightarrow> t\<lparr>pc := L93\<rparr>
      | L93 \<Rightarrow> t\<lparr>pc := L93w\<rparr>
      | L93w \<Rightarrow> t\<lparr>pc := L94\<rparr>
      | L94 \<Rightarrow> t\<lparr>pc := L96\<rparr>
      | L96 \<Rightarrow> t\<lparr>pc := L99\<rparr>
      | L99 \<Rightarrow> t\<lparr>elapsed := clock99 (env t) (err t) - start t, pc := L101\<rparr>
      | L101 \<Rightarrow> t\<lparr>pc := L102\<rparr>
      | L102 \<Rightarrow> t\<lparr>pc := L102w\<rparr>
      | L102w \<Rightarrow> t\<lparr>pc := L103\<rparr>
      | L103 \<Rightarrow> t\<lparr>pc := L105\<rparr>
      | L105 \<Rightarrow> t\<lparr>pc := L106\<rparr>
      | L106 \<Rightarrow> t\<lparr>pc := L107\<rparr>
      | L107 \<Rightarrow> t\<lparr>pc := L78\<rparr>
      | L78 \<Rightarrow> t\<lparr>pc := Done\<rparr>
      | Done \<Rightarrow> t)"

definition step_events :: "task \<Rightarrow> DNSCollector \<Rightarrow> event list" where
  "step_events t e =
     (case pc t of
        L88 \<Rightarrow> [EvNow (startT (env t))]
      | L90 \<Rightarrow> [EvLookup (lookupErr (env t))]
      | L93w \<Rightarrow> [EvIncError (map_index (totalErrorCount e) (host t) + 1)]
      | L96 \<Rightarrow> [EvLog]
      | L99 \<Rightarrow> [EvSince (clock99 (env t) (err t) - start t)]
      | L102w \<Rightarrow> [EvIncAttempt (map_index (totalCount e) (host t) + 1)]
      | L105 \<Rightarrow> [EvSendTotal (map_index (totalCount e) (host t))]
      | L106 \<Rightarrow> [EvSendError (map_index (totalErrorCount e) (host t))]
      | L107 \<Rightarrow> [EvSendLatency (elapsed t)]
      | L78 \<Rightarrow> [EvWgDone]
      | _ \<Rightarrow> [])"

definition step_samples :: "task \<Rightarrow> DNSCollector \<Rightarrow> Metric list" where
  "step_samples t e =
     (case pc t of
        L105 \<Rightarrow> [MustNewConstMetric (totalDesc e) CounterValue
                    (Float64OfInt (map_index (totalCount e) (host t))) [host t]]
      | L106 \<Rightarrow> [MustNewConstMetric (totalError e) CounterValue
                    (Float64OfInt (map_index (totalErrorCount e) (host t))) [host t]]
      | L107 \<Rightarrow> [MustNewConstMetric (latency e) GaugeValue (Seconds (elapsed t)) [host t]]
      | _ \<Rightarrow> [])"

text \<open>
  The position of a program counter, and of the step behind an event, in program order.
\<close>

fun line :: "pc \<Rightarrow> nat" where
  "line L88 = 0"
| "line L90 = 1"
| "line L92 = 2"
| "line L93 = 3"
| "line L93w = 4"
| "line L94 = 5"
| "line L96 = 6"
| "line L99 = 7"
| "line L101 = 8"
| "line L102 = 9"
| "line L102w = 10"
| "line L103 = 11"
| "line L105 = 12"
| "line L106 = 13"
| "line L107 = 14"
| "line L78 = 15"
| "line Done = 16"

fun ev_line :: "event \<Rightarrow> nat" where
  "ev_line (EvNow _) = 0"
| "ev_line (EvLookup _) = 1"
| "ev_line (EvIncError _) = 4"
| "ev_line EvLog = 6"
| "ev_line (EvSince _) = 7"
| "ev_line (EvIncAttempt _) = 10"
| "ev_line (EvSendTotal _) = 12"
| "ev_line (EvSendError _) = 13"
| "ev_line (EvSendLatency _) = 14"
| "ev_line EvWgDone = 15"

section \<open>The history of one goroutine\<close>


















section \<open>Invariants of the reachable states\<close>

text \<open>
  The locals of a goroutine hold what its environment gave it: past line 90 \<open>err\<close> is the
  result of the lookup, and lines 92-96 are reached only after a failed lookup.
\<close>

definition task_ok :: "task \<Rightarrow> bool" where
  "task_ok t \<longleftrightarrow>
     (pc t \<in> {L92, L93, L93w, L94, L96} \<longrightarrow> lookupErr (env t) \<noteq> None) \<and>
     (pc t \<notin> {L88, L90} \<longrightarrow> err t = lookupErr (env t)) \<and>
     (pc t \<noteq> L88 \<longrightarrow> start t = startT (env t)) \<and>
     (pc t \<in> {L101, L102, L102w, L103, L105, L106, L107, L78, Done} \<longrightarrow>
        elapsed t = clock99 (env t) (lookupErr (env t)) - startT (env t))"

text \<open>
  Each counter is the number of probes that have counted, as a 64-bit integer.
\<close>

definition counts_ok :: "sys \<Rightarrow> bool" where
  "counts_ok s \<longleftrightarrow>
     (\<forall>t \<in> set (tasks s). task_ok t) \<and>
     (\<forall>h. map_index (totalCount (collector s)) h = of_nat (attempts h (tasks s))) \<and>
     (\<forall>h. map_index (totalErrorCount (collector s)) h = of_nat (errors h (tasks s)))"

text \<open>
  Each \<open>WaitGroup\<close> counter is the number of its goroutines that have not finished, and
  every call of \<open>Collect\<close> has started one probe per entry of the registry.
\<close>

definition wg_ok :: "sys \<Rightarrow> bool" where
  "wg_ok s \<longleftrightarrow>
     (\<forall>t \<in> set (tasks s). wg t < length (wgs s)) \<and>
     (\<forall>k < length (wgs s). wgs s ! k = running k (tasks s)) \<and>
     (\<forall>h. probes h (tasks s) = length (wgs s) * count_list (hosts (collector s)) h)"

text \<open>
  A mutex is taken exactly when one goroutine stands between its \<open>Lock\<close> and its
  \<open>Unlock\<close>, so no two goroutines are ever between the \<open>Lock\<close> and \<open>Unlock\<close> of the
  same mutex.
\<close>

definition in_error_section :: "task \<Rightarrow> bool" where
  "in_error_section t \<longleftrightarrow> pc t \<in> {L93, L93w, L94}"

definition in_total_section :: "task \<Rightarrow> bool" where
  "in_total_section t \<longleftrightarrow> pc t \<in> {L102, L102w, L103}"

definition mutex_ok :: "sys \<Rightarrow> bool" where
  "mutex_ok s \<longleftrightarrow>
     length (filter in_error_section (tasks s))
       = (if totalErrorCountMutex (collector s) then 1 else 0) \<and>
     length (filter in_total_section (tasks s))
       = (if totalCountMutex (collector s) then 1 else 0)"

text \<open>
  Every event in the history belongs to a step its goroutine has already taken, and the
  events of one goroutine stand in program order.
\<close>

definition trace_ok :: "sys \<Rightarrow> bool" where
  "trace_ok s \<longleftrightarrow>
     (\<forall>p < length (trace s).
        fst (trace s ! p) < length (tasks s) \<and>
        ev_line (snd (trace s ! p)) < line (pc (tasks s ! fst (trace s ! p)))) \<and>
     (\<forall>q < length (trace s). \<forall>p < q.
        fst (trace s ! p) = fst (trace s ! q) \<longrightarrow>
        ev_line (snd (trace s ! p)) < ev_line (snd (trace s ! q)))"

text \<open>
  Every goroutine probes a host of the registry, and every sample on the channel is made
  from one of the three descriptors and labelled with one host of the registry.
\<close>

definition out_ok :: "sys \<Rightarrow> bool" where
  "out_ok s \<longleftrightarrow>
     (\<forall>t \<in> set (tasks s). host t \<in> set (hosts (collector s))) \<and>
     (\<forall>m \<in> set (ch s).
        desc m \<in> {totalDesc (collector s), totalError (collector s), latency (collector s)} \<and>
        (\<exists>h \<in> set (hosts (collector s)). labelValues m = [h]))"



section \<open>Configurations, lookups and runs used as examples\<close>

text \<open>
  The configuration of \<open>main\<close> (lines 111-116), one that lists a host twice, and the
  empty one; a lookup that succeeds after 10 ns, and one that fails after 10 ns and
  whose error is counted and logged in 5 ns more.
\<close>

definition main_config :: Config where
  "main_config = \<lparr>Hosts = [''example.org'', ''google.com'']\<rparr>"

definition dup_config :: Config where
  "dup_config = \<lparr>Hosts = [''example.org'', ''example.org'']\<rparr>"

definition empty_config :: Config where
  "empty_config = \<lparr>Hosts = []\<rparr>"

definition lookup_ok :: probe_env where
  "lookup_ok = \<lparr>startT = 100, lookupErr = None, lookupDur = 10, errDur = 5\<rparr>"

definition lookup_fails :: probe_env where
  "lookup_fails = \<lparr>startT = 100, lookupErr = Some ''no such host'', lookupDur = 10, errDur = 5\<rparr>"

text \<open>
  One scrape whose lookups succeed, each goroutine run to its end in turn (a probe whose
  lookup succeeds takes eleven steps, one whose lookup fails sixteen).
\<close>

definition one_cycle :: "action list" where
  "one_cycle = Scrape (\<lambda>_. lookup_ok) # map Sched (replicate 11 0 @ replicate 11 1)"

definition dup_run :: "action list" where
  "dup_run = Scrape (\<lambda>_. lookup_ok) # map Sched (replicate 11 0 @ replicate 11 1)"

text \<open>
  One scrape whose lookups fail: the first goroutine stopped after five steps (lines
  88, 90, 92 and the assignment of line 93), and the whole cycle.
\<close>

definition failing_prefix :: "action list" where
  "failing_prefix = Scrape (\<lambda>_. lookup_fails) # map Sched (replicate 5 0)"

definition failing_run :: "action list" where
  "failing_run = Scrape (\<lambda>_. lookup_fails) # map Sched (replicate 16 0 @ replicate 16 1)"

text \<open>
  One scrape in which the lookup of the first host fails and that of the second succeeds.
\<close>

definition mixed_launch :: "action list" where
  "mixed_launch = [Scrape (\<lambda>j. if j = 0 then lookup_fails else lookup_ok)]"

definition mixed_sched :: "nat list" where
  "mixed_sched = replicate 16 0 @ replicate 11 1"

definition mixed_run :: "action list" where
  "mixed_run = mixed_launch @ map Sched mixed_sched"

text \<open>
  Two scrapes that overlap: goroutines 0 and 1 belong to the first, 2 and 3 to the
  second; goroutines 0 and 2 both probe the first host. Goroutine 0 runs up to its
  \<open>Unlock\<close> of line 103, then goroutine 2 runs up to the end of its assignment of line
  102, then goroutine 0 runs line 105.
\<close>

definition overlap_run :: "action list" where
  "overlap_run = [Scrape (\<lambda>_. lookup_ok), Scrape (\<lambda>_. lookup_ok)]
                   @ map Sched (replicate 7 0 @ replicate 6 2 @ [0])"

definition empty_run :: "action list" where
  "empty_run = [Scrape (\<lambda>_. lookup_fails), Sched 0, Scrape (\<lambda>_. lookup_ok)]"

text \<open>
  One scrape in which the lookup of the first host fails: goroutine 0 runs up to its
  \<open>Unlock\<close> of line 103 (its failure counted and logged), goroutine 1 runs into the
  middle of its assignment of line 102, and goroutine 0 then runs line 105. After that
  the scheduler gives every goroutine sixteen more turns.
\<close>

definition race_run :: "action list" where
  "race_run = mixed_launch @ map Sched (replicate 12 0 @ replicate 5 1 @ [0])"

definition race_rest :: "action list" where
  "race_rest = map Sched (replicate 16 0 @ replicate 16 1)"

section \<open>Lists and words\<close>

lemma sint_of_nat_small:
  assumes "n < 2 ^ 63" shows "sint (of_nat n :: 64 word) = int n"
proof -
  have "signed_take_bit 63 (int n) = int n"
    using assms by (intro signed_take_bit_int_eq_self) auto
  then show ?thesis by (simp add: signed_of_nat)
qed

lemma filter_length_update:
  "i < length xs \<Longrightarrow>
   length (filter P (xs[i := y])) + (if P (xs ! i) then 1 else 0)
     = length (filter P xs) + (if P y then 1 else 0)"
proof (induction xs arbitrary: i)
  case Nil then show ?case by simp
next
  case (Cons x xs)
  then show ?case by (cases i) auto
qed

lemma filter_length_le_sum:
  assumes "\<And>x. x \<in> set xs \<Longrightarrow> P x \<Longrightarrow> Q x \<or> R x"
  shows "length (filter P xs) \<le> length (filter Q xs) + length (filter R xs)"
  using assms by (induction xs) auto

section \<open>What a step and a launch change\<close>

text \<open>
  Each field of the state after \<open>goroutine_step\<close>, in terms of the components above. A
  step that does not move leaves the state as it is, or stops the process.
\<close>

lemma tasks_step:
  "tasks (goroutine_step i s) =
     (if moves i s then (tasks s)[i := step_task (tasks s ! i)] else tasks s)"
  by (cases "pc (tasks s ! i)") (auto simp: goroutine_step_def moves_def step_task_def Let_def)


lemma trace_step:
  "trace (goroutine_step i s) =
     trace s @ (if moves i s then map (Pair i) (step_events (tasks s ! i) (collector s)) else [])"
  by (cases "pc (tasks s ! i)") (auto simp: goroutine_step_def moves_def step_events_def Let_def)

lemma ch_step:
  "ch (goroutine_step i s) =
     ch s @ (if moves i s then step_samples (tasks s ! i) (collector s) else [])"
  by (cases "pc (tasks s ! i)") (auto simp: goroutine_step_def moves_def step_samples_def Let_def)

lemma logOut_step:
  "logOut (goroutine_step i s) =
     logOut s @ (if i < length (tasks s) \<and> pc (tasks s ! i) = L96
                 then [logLine (host (tasks s ! i)) (err (tasks s ! i))] else [])"
  by (cases "pc (tasks s ! i)") (auto simp: goroutine_step_def Let_def)

lemma totalCount_step:
  "totalCount (collector (goroutine_step i s)) =
     (if i < length (tasks s) \<and> pc (tasks s ! i) = L102w
      then map_incr (totalCount (collector s)) (host (tasks s ! i))
      else totalCount (collector s))"
  by (cases "pc (tasks s ! i)") (auto simp: goroutine_step_def Let_def)

lemma totalErrorCount_step:
  "totalErrorCount (collector (goroutine_step i s)) =
     (if i < length (tasks s) \<and> pc (tasks s ! i) = L93w
      then map_incr (totalErrorCount (collector s)) (host (tasks s ! i))
      else totalErrorCount (collector s))"
  by (cases "pc (tasks s ! i)") (auto simp: goroutine_step_def Let_def)

lemma totalCountMutex_step:
  "totalCountMutex (collector (goroutine_step i s)) =
     (if moves i s \<and> pc (tasks s ! i) = L101 then True
      else if moves i s \<and> pc (tasks s ! i) = L103 then False
      else totalCountMutex (collector s))"
  by (cases "pc (tasks s ! i)") (auto simp: goroutine_step_def moves_def Let_def)

lemma totalErrorCountMutex_step:
  "totalErrorCountMutex (collector (goroutine_step i s)) =
     (if moves i s \<and> pc (tasks s ! i) = L92 then True
      else if moves i s \<and> pc (tasks s ! i) = L94 then False
      else totalErrorCountMutex (collector s))"
  by (cases "pc (tasks s ! i)") (auto simp: goroutine_step_def moves_def Let_def)

lemma fixed_step:
  "hosts (collector (goroutine_step i s)) = hosts (collector s)"
  "totalDesc (collector (goroutine_step i s)) = totalDesc (collector s)"
  "totalError (collector (goroutine_step i s)) = totalError (collector s)"
  "latency (collector (goroutine_step i s)) = latency (collector s)"
  by (cases "pc (tasks s ! i)"; simp add: goroutine_step_def Let_def)+

lemma wgs_step:
  "wgs (goroutine_step i s) =
     (if i < length (tasks s) \<and> pc (tasks s ! i) = L78
      then (wgs s)[wg (tasks s ! i) := wgs s ! wg (tasks s ! i) - 1]
      else wgs s)"
  by (cases "pc (tasks s ! i)") (auto simp: goroutine_step_def Let_def)

lemma length_wgs_step: "length (wgs (goroutine_step i s)) = length (wgs s)"
  by (simp add: wgs_step)

lemma moves_less: "moves i s \<Longrightarrow> i < length (tasks s)"
  by (simp add: moves_def)

lemma host_step_task: "host (step_task t) = host t"
  by (cases "pc t") (simp_all add: step_task_def)


lemma wg_step_task: "wg (step_task t) = wg t"
  by (cases "pc t") (simp_all add: step_task_def)

lemma map_index_incr: "map_index (map_incr m k) h = map_index m h + (if h = k then 1 else 0)"
  by (simp add: map_index_def map_incr_def)

lemma stuck_step:
  "\<not> moves i s \<Longrightarrow> goroutine_step i s = s \<or> goroutine_step i s = s\<lparr>fatal := True\<rparr>"
  by (cases "pc (tasks s ! i)") (auto simp: goroutine_step_def moves_def Let_def)

lemma hosts_launch: "hosts (collector (Collect_launch envs s)) = hosts (collector s)"
  by (simp add: Collect_launch_def)

lemma hosts_exec: "hosts (collector (exec as s)) = hosts (collector s)"
proof (induction as arbitrary: s)
  case Nil then show ?case by simp
next
  case (Cons a as)
  then show ?case by (cases a) (simp_all add: fixed_step hosts_launch)
qed

lemma descs_exec:
  "totalDesc (collector (exec as s)) = totalDesc (collector s) \<and>
   totalError (collector (exec as s)) = totalError (collector s) \<and>
   latency (collector (exec as s)) = latency (collector s)"
proof (induction as arbitrary: s)
  case Nil then show ?case by simp
next
  case (Cons a as)
  then show ?case by (cases a) (simp_all add: fixed_step Collect_launch_def)
qed

lemma scrapes_Cons:
  "scrapes (Scrape envs # as) = Suc (scrapes as)" "scrapes (Sched i # as) = scrapes as"
  by (simp_all add: scrapes_def)

lemma length_wgs_exec: "length (wgs (exec as s)) \<le> length (wgs s) + scrapes as"
proof (induction as arbitrary: s)
  case Nil then show ?case by simp
next
  case (Cons a as)
  show ?case
  proof (cases a)
    case (Scrape envs)
    have "length (wgs (act a s)) \<le> Suc (length (wgs s))"
      using Scrape by (simp add: Collect_launch_def)
    then show ?thesis using Cons [of "act a s"] Scrape by (simp add: scrapes_Cons)
  next
    case (Sched i)
    have "length (wgs (act a s)) = length (wgs s)"
      using Sched by (simp add: length_wgs_step)
    then show ?thesis using Cons [of "act a s"] Sched by (simp add: scrapes_Cons)
  qed
qed

lemma exec_append: "exec (as @ bs) s = exec bs (exec as s)"
  by (induction as arbitrary: s) simp_all

lemma fatal_forever: "fatal s \<Longrightarrow> exec as s = s"
  by (induction as) (simp_all, metis act.simps action.exhaust)

lemma hosts_boot: "hosts (collector (boot cfg)) = Hosts cfg"
  by (simp add: boot_def register_def NewDNSCollector_def)

lemma wgs_boot: "wgs (boot cfg) = []"
  by (simp add: boot_def register_def)

lemma descs_boot:
  "totalDesc (collector (boot cfg)) = NewDesc ''dns_exporter_resolution_total''
      ''Total number of DNS resolutions.'' [''host''] []"
  "totalError (collector (boot cfg)) = NewDesc ''dns_exporter_resolution_error_total''
      ''Total number of DNS resolution errors.'' [''host''] []"
  "latency (collector (boot cfg)) = NewDesc ''dns_exporter_resolution_seconds''
      ''Time taken to resolve DNS.'' [''host''] []"
  by (simp_all add: boot_def register_def NewDNSCollector_def BuildFQName_def Namespace_def)

section \<open>The counters count the probes\<close>

lemma task_ok_step: "task_ok t \<Longrightarrow> task_ok (step_task t)"
  by (cases "pc t") (auto simp: task_ok_def step_task_def)

lemma task_ok_new: "task_ok (go_resolveHost k h en)"
  by (simp add: task_ok_def go_resolveHost_def)

lemma attempts_update:
  assumes "i < length ts"
  shows "attempts h (ts[i := step_task (ts ! i)]) =
           attempts h ts + (if host (ts ! i) = h \<and> pc (ts ! i) = L102w then 1 else 0)"
proof -
  let ?P = "\<lambda>t. host t = h \<and> attempted t"
  have "?P (step_task (ts ! i)) \<longleftrightarrow> ?P (ts ! i) \<or> (host (ts ! i) = h \<and> pc (ts ! i) = L102w)"
    by (cases "pc (ts ! i)") (auto simp: step_task_def attempted_def)
  moreover have "\<not> (?P (ts ! i) \<and> pc (ts ! i) = L102w)"
    by (auto simp: attempted_def)
  ultimately show ?thesis
    using filter_length_update [OF assms, of ?P "step_task (ts ! i)"]
    by (auto simp: attempts_def split: if_splits)
qed

lemma errors_update:
  assumes "i < length ts" and "task_ok (ts ! i)"
  shows "errors h (ts[i := step_task (ts ! i)]) =
           errors h ts + (if host (ts ! i) = h \<and> pc (ts ! i) = L93w then 1 else 0)"
proof -
  let ?P = "\<lambda>t. host t = h \<and> err_counted t"
  have "?P (step_task (ts ! i)) \<longleftrightarrow> ?P (ts ! i) \<or> (host (ts ! i) = h \<and> pc (ts ! i) = L93w)"
    using assms(2) by (cases "pc (ts ! i)") (auto simp: step_task_def err_counted_def task_ok_def)
  moreover have "\<not> (?P (ts ! i) \<and> pc (ts ! i) = L93w)"
    by (auto simp: err_counted_def)
  ultimately show ?thesis
    using filter_length_update [OF assms(1), of ?P "step_task (ts ! i)"]
    by (auto simp: errors_def split: if_splits)
qed

lemma counts_ok_step:
  assumes "counts_ok s"
  shows "counts_ok (goroutine_step i s)"
proof (cases "moves i s")
  case False
  from stuck_step [OF False] show ?thesis
    using assms by (auto simp: counts_ok_def)
next
  case True
  then have len: "i < length (tasks s)" by (rule moves_less)
  let ?t = "tasks s ! i"
  have ok: "task_ok ?t" using assms len by (simp add: counts_ok_def)
  have 1: "\<forall>t \<in> set (tasks (goroutine_step i s)). task_ok t"
  proof
    fix t assume "t \<in> set (tasks (goroutine_step i s))"
    then have "t = step_task ?t \<or> t \<in> set (tasks s)"
      using set_update_subset_insert [of "tasks s" i "step_task ?t"] True
      by (auto simp: tasks_step)
    then show "task_ok t" using assms ok by (auto simp: counts_ok_def task_ok_step)
  qed
  have 2: "map_index (totalCount (collector (goroutine_step i s))) h
             = of_nat (attempts h (tasks (goroutine_step i s)))" for h
    using assms True len
    by (simp add: counts_ok_def tasks_step totalCount_step attempts_update map_index_incr)
  have 3: "map_index (totalErrorCount (collector (goroutine_step i s))) h
             = of_nat (errors h (tasks (goroutine_step i s)))" for h
    using assms True len ok
    by (simp add: counts_ok_def tasks_step totalErrorCount_step errors_update map_index_incr)
  show ?thesis using 1 2 3 by (simp add: counts_ok_def)
qed

lemma attempts_append: "attempts h (ts @ us) = attempts h ts + attempts h us"
  by (simp add: attempts_def)

lemma errors_append: "errors h (ts @ us) = errors h ts + errors h us"
  by (simp add: errors_def)

lemma attempts_new: "attempts h (map (\<lambda>(j, x). go_resolveHost k x (envs j)) js) = 0"
  unfolding attempts_def length_0_conv filter_empty_conv
  by (auto simp: attempted_def go_resolveHost_def)

lemma errors_new: "errors h (map (\<lambda>(j, x). go_resolveHost k x (envs j)) js) = 0"
  unfolding errors_def length_0_conv filter_empty_conv
  by (auto simp: err_counted_def go_resolveHost_def)

lemma counts_ok_launch:
  assumes "counts_ok s"
  shows "counts_ok (Collect_launch envs s)"
  using assms
  by (auto simp: counts_ok_def Collect_launch_def attempts_append errors_append
        attempts_new errors_new task_ok_new)

lemma counts_ok_act: "counts_ok s \<Longrightarrow> counts_ok (act a s)"
  by (cases a) (simp_all add: counts_ok_step counts_ok_launch)

lemma counts_ok_exec: "counts_ok s \<Longrightarrow> counts_ok (exec as s)"
  by (induction as arbitrary: s) (simp_all add: counts_ok_act)

lemma counts_ok_boot: "counts_ok (boot cfg)"
  by (simp add: counts_ok_def boot_def register_def NewDNSCollector_def attempts_def errors_def
        map_index_def)

lemma errors_le: "errors h ts \<le> attempts h ts + window h ts"
  unfolding errors_def attempts_def window_def
  by (rule filter_length_le_sum) (auto simp: err_counted_def attempted_def in_window_def, (metis pc.exhaust)+)

lemma attempts_all_Done:
  assumes "\<forall>t \<in> set ts. pc t = Done"
  shows "attempts h ts = probes h ts"
proof -
  have "filter (\<lambda>t. host t = h \<and> attempted t) ts = filter (\<lambda>t. host t = h) ts"
    using assms by (intro filter_cong) (auto simp: attempted_def)
  then show ?thesis by (simp add: attempts_def probes_def)
qed

section \<open>The WaitGroup counts the goroutines that still run\<close>

lemma probes_update:
  "i < length ts \<Longrightarrow> probes h (ts[i := step_task (ts ! i)]) = probes h ts"
  using filter_length_update [of i ts "\<lambda>t. host t = h" "step_task (ts ! i)"]
  by (simp add: probes_def host_step_task)

lemma running_update:
  assumes "i < length ts"
  shows "running k (ts[i := step_task (ts ! i)]) =
           running k ts - (if wg (ts ! i) = k \<and> pc (ts ! i) = L78 then 1 else 0)"
proof -
  let ?P = "\<lambda>t. wg t = k \<and> pc t \<noteq> Done"
  have "?P (step_task (ts ! i)) \<longleftrightarrow> ?P (ts ! i) \<and> \<not> (wg (ts ! i) = k \<and> pc (ts ! i) = L78)"
    by (cases "pc (ts ! i)") (auto simp: step_task_def)
  then show ?thesis
    using filter_length_update [OF assms, of ?P "step_task (ts ! i)"]
    by (auto simp: running_def split: if_splits)
qed

lemma wg_ok_step:
  assumes "wg_ok s"
  shows "wg_ok (goroutine_step i s)"
proof (cases "moves i s")
  case False
  from stuck_step [OF False] show ?thesis
    using assms by (auto simp: wg_ok_def)
next
  case True
  then have len: "i < length (tasks s)" by (rule moves_less)
  let ?t = "tasks s ! i"
  have wt: "wg ?t < length (wgs s)" using assms len by (simp add: wg_ok_def)
  have 1: "\<forall>t \<in> set (tasks (goroutine_step i s)). wg t < length (wgs (goroutine_step i s))"
  proof
    fix t assume "t \<in> set (tasks (goroutine_step i s))"
    then have "t = step_task ?t \<or> t \<in> set (tasks s)"
      using set_update_subset_insert [of "tasks s" i "step_task ?t"] True
      by (auto simp: tasks_step)
    then show "wg t < length (wgs (goroutine_step i s))"
      using assms wt by (auto simp: wg_ok_def length_wgs_step wg_step_task)
  qed
  have 2: "wgs (goroutine_step i s) ! k = running k (tasks (goroutine_step i s))"
    if "k < length (wgs s)" for k
    using assms True len wt that
    by (auto simp: wg_ok_def tasks_step wgs_step running_update nth_list_update)
  have 3: "probes h (tasks (goroutine_step i s))
             = length (wgs (goroutine_step i s)) * count_list (hosts (collector (goroutine_step i s))) h" for h
    using assms True len by (simp add: wg_ok_def tasks_step probes_update length_wgs_step fixed_step)
  show ?thesis using 1 2 3 by (simp add: wg_ok_def length_wgs_step)
qed

lemma probes_new:
  "probes h (map (\<lambda>(j, x). go_resolveHost k x (envs j)) (enumerate n xs)) = count_list xs h"
  by (induction xs arbitrary: n) (auto simp: probes_def go_resolveHost_def)

lemma running_new:
  "running k (map (\<lambda>(j, x). go_resolveHost k x (envs j)) (enumerate n xs)) = length xs"
  by (induction xs arbitrary: n) (auto simp: running_def go_resolveHost_def)

lemma running_other:
  "\<forall>t \<in> set ts. wg t \<noteq> k \<Longrightarrow> running k ts = 0"
  by (auto simp: running_def filter_empty_conv)

lemma running_append: "running k (ts @ us) = running k ts + running k us"
  by (simp add: running_def)

lemma probes_append: "probes h (ts @ us) = probes h ts + probes h us"
  by (simp add: probes_def)

lemma wg_ok_launch:
  assumes "wg_ok s"
  shows "wg_ok (Collect_launch envs s)"
proof -
  let ?n = "length (wgs s)"
  let ?new = "map (\<lambda>(j, x). go_resolveHost ?n x (envs j)) (enumerate 0 (hosts (collector s)))"
  have old: "running ?n (tasks s) = 0"
    using assms by (intro running_other) (auto simp: wg_ok_def)
  have new: "running k ?new = 0" if "k < ?n" for k
    using that by (intro running_other) (auto simp: go_resolveHost_def)
  have 1: "\<forall>t \<in> set (tasks s @ ?new). wg t < Suc ?n"
    using assms by (auto simp: wg_ok_def less_Suc_eq go_resolveHost_def)
  have 2: "(wgs s @ [length (hosts (collector s))]) ! k = running k (tasks s @ ?new)"
    if "k < Suc ?n" for k
    using that assms old new
    by (auto simp: nth_append running_append running_new wg_ok_def less_Suc_eq)
  have 3: "probes h (tasks s @ ?new) = Suc ?n * count_list (hosts (collector s)) h" for h
    using assms by (simp add: probes_append probes_new wg_ok_def)
  show ?thesis using 1 2 3 by (simp add: wg_ok_def Collect_launch_def)
qed

lemma wg_ok_act: "wg_ok s \<Longrightarrow> wg_ok (act a s)"
  by (cases a) (simp_all add: wg_ok_step wg_ok_launch)

lemma wg_ok_exec: "wg_ok s \<Longrightarrow> wg_ok (exec as s)"
  by (induction as arbitrary: s) (simp_all add: wg_ok_act)

lemma wg_ok_boot: "wg_ok (boot cfg)"
  by (simp add: wg_ok_def boot_def register_def probes_def)

lemma running_zero_Done:
  assumes "running (wg t) ts = 0" and "t \<in> set ts"
  shows "pc t = Done"
  using assms by (auto simp: running_def filter_empty_conv)

lemma all_returned_Done:
  assumes "wg_ok s" and "\<forall>k < length (wgs s). Collect_returns k s" and "t \<in> set (tasks s)"
  shows "pc t = Done"
proof -
  have k: "wg t < length (wgs s)" using assms(1,3) by (simp add: wg_ok_def)
  then have "wgs s ! wg t = 0" using assms(2) by (simp add: Collect_returns_def)
  then have "running (wg t) (tasks s) = 0" using assms(1) k by (simp add: wg_ok_def)
  then show ?thesis using assms(3) by (rule running_zero_Done)
qed

text \<open>
  \<open>wg.Done()\<close> panics when the counter is already zero. Whenever a goroutine is about
  to run it, the counter of its \<open>WaitGroup\<close> is positive, so the subtraction in the step
  of \<open>L78\<close> never meets zero.
\<close>

lemma wg_Done_positive:
  assumes "wg_ok s" and "i < length (tasks s)" and "pc (tasks s ! i) = L78"
  shows "wg (tasks s ! i) < length (wgs s) \<and> 0 < wgs s ! wg (tasks s ! i)"
proof -
  let ?t = "tasks s ! i"
  have t: "?t \<in> set (tasks s)" using assms(2) by simp
  then have k: "wg ?t < length (wgs s)" using assms(1) by (simp add: wg_ok_def)
  have "filter (\<lambda>u. wg u = wg ?t \<and> pc u \<noteq> Done) (tasks s) \<noteq> []"
    using t assms(3) by (auto simp: filter_empty_conv)
  then have "0 < running (wg ?t) (tasks s)"
    by (simp add: running_def)
  then show ?thesis using assms(1) k by (simp add: wg_ok_def)
qed

section \<open>The mutexes exclude\<close>

lemma section_update:
  assumes "i < length ts"
  shows "length (filter in_error_section (ts[i := step_task (ts ! i)]))
            + (if pc (ts ! i) = L94 then 1 else 0)
           = length (filter in_error_section ts) + (if pc (ts ! i) = L92 then 1 else 0)"
    and "length (filter in_total_section (ts[i := step_task (ts ! i)]))
            + (if pc (ts ! i) = L103 then 1 else 0)
           = length (filter in_total_section ts) + (if pc (ts ! i) = L101 then 1 else 0)"
  using filter_length_update [OF assms, of in_error_section "step_task (ts ! i)"]
        filter_length_update [OF assms, of in_total_section "step_task (ts ! i)"]
  by (cases "pc (ts ! i)"; simp add: in_error_section_def in_total_section_def step_task_def)+

lemma section_nonempty:
  assumes "i < length ts"
  shows "pc (ts ! i) = L94 \<Longrightarrow> 0 < length (filter in_error_section ts)"
    and "pc (ts ! i) = L103 \<Longrightarrow> 0 < length (filter in_total_section ts)"
  using assms nth_mem [OF assms]
  by (auto simp: filter_empty_conv in_error_section_def in_total_section_def)

lemma mutex_ok_step:
  assumes "mutex_ok s"
  shows "mutex_ok (goroutine_step i s)"
proof (cases "moves i s")
  case False
  from stuck_step [OF False] show ?thesis
    using assms by (auto simp: mutex_ok_def)
next
  case True
  then have len: "i < length (tasks s)" by (rule moves_less)
  have free: "pc (tasks s ! i) = L92 \<Longrightarrow> \<not> totalErrorCountMutex (collector s)"
             "pc (tasks s ! i) = L101 \<Longrightarrow> \<not> totalCountMutex (collector s)"
    using True by (simp_all add: moves_def)
  show ?thesis
    using assms True section_update [OF len] section_nonempty [OF len] free
    by (auto simp: mutex_ok_def tasks_step totalCountMutex_step totalErrorCountMutex_step
             split: if_splits)
qed

lemma mutex_ok_launch:
  assumes "mutex_ok s"
  shows "mutex_ok (Collect_launch envs s)"
proof -
  have "filter in_error_section (map (\<lambda>(j, x). go_resolveHost k x (envs j)) js) = []"
       "filter in_total_section (map (\<lambda>(j, x). go_resolveHost k x (envs j)) js) = []" for k js
    by (auto simp: filter_empty_conv in_error_section_def in_total_section_def go_resolveHost_def)
  then show ?thesis using assms by (simp add: mutex_ok_def Collect_launch_def)
qed

lemma mutex_ok_exec: "mutex_ok s \<Longrightarrow> mutex_ok (exec as s)"
proof (induction as arbitrary: s)
  case Nil then show ?case by simp
next
  case (Cons a as)
  then show ?case by (cases a) (simp_all add: mutex_ok_step mutex_ok_launch)
qed

lemma mutex_ok_boot: "mutex_ok (boot cfg)"
  by (simp add: mutex_ok_def boot_def register_def NewDNSCollector_def)

section \<open>The history follows the program order\<close>

lemma ev_line_step: "ev \<in> set (step_events t e) \<Longrightarrow> ev_line ev = line (pc t)"
  by (cases "pc t") (simp_all add: step_events_def)

lemma step_events_length: "length (step_events t e) \<le> 1"
  by (cases "pc t") (simp_all add: step_events_def)

lemma line_step: "pc t \<noteq> Done \<Longrightarrow> line (pc t) < line (pc (step_task t))"
  by (cases "pc t") (simp_all add: step_task_def)

lemma line_step_le: "line (pc t) \<le> line (pc (step_task t))"
  by (cases "pc t") (simp_all add: step_task_def)

lemma moves_not_Done: "moves i s \<Longrightarrow> pc (tasks s ! i) \<noteq> Done"
  by (auto simp: moves_def)

lemma trace_ok_grow:
  assumes "trace_ok s" and "moves i s"
  shows "\<forall>p < length (trace s).
           fst (trace s ! p) < length (tasks s) \<and>
           ev_line (snd (trace s ! p))
             < line (pc ((tasks s)[i := step_task (tasks s ! i)] ! fst (trace s ! p)))"
proof (intro allI impI)
  fix p assume p: "p < length (trace s)"
  let ?j = "fst (trace s ! p)"
  have j: "?j < length (tasks s)"
    and l: "ev_line (snd (trace s ! p)) < line (pc (tasks s ! ?j))"
    using assms(1) p by (simp_all add: trace_ok_def)
  have "line (pc (tasks s ! ?j)) \<le> line (pc ((tasks s)[i := step_task (tasks s ! i)] ! ?j))"
    using j line_step_le [of "tasks s ! i"] by (cases "?j = i") simp_all
  then show "?j < length (tasks s) \<and>
           ev_line (snd (trace s ! p)) < line (pc ((tasks s)[i := step_task (tasks s ! i)] ! ?j))"
    using j l by simp
qed

lemma trace_ok_step:
  assumes "trace_ok s"
  shows "trace_ok (goroutine_step i s)"
proof (cases "moves i s")
  case False
  from stuck_step [OF False] show ?thesis
    using assms by (auto simp: trace_ok_def)
next
  case True
  then have len: "i < length (tasks s)" by (rule moves_less)
  let ?t = "tasks s ! i"
  let ?ts = "(tasks s)[i := step_task ?t]"
  have ts: "tasks (goroutine_step i s) = ?ts" using True by (simp add: tasks_step)
  have nd: "pc ?t \<noteq> Done" using True by (rule moves_not_Done)
  note old = trace_ok_grow [OF assms True]
  show ?thesis
  proof (cases "step_events ?t (collector s)")
    case Nil
    then have tr: "trace (goroutine_step i s) = trace s" using True by (simp add: trace_step)
    show ?thesis unfolding trace_ok_def tr ts using old assms by (simp add: trace_ok_def)
  next
    case (Cons ev evs)
    then have evs: "evs = []" using step_events_length [of ?t "collector s"] by simp
    have el: "ev_line ev = line (pc ?t)" using ev_line_step [of ev ?t "collector s"] Cons by simp
    let ?tr = "trace s @ [(i, ev)]"
    have tr: "trace (goroutine_step i s) = ?tr" using True Cons evs by (simp add: trace_step)
    have 1: "fst (?tr ! p) < length ?ts \<and> ev_line (snd (?tr ! p)) < line (pc (?ts ! fst (?tr ! p)))"
      if "p < length ?tr" for p
    proof (cases "p < length (trace s)")
      case True
      then show ?thesis using old by (simp add: nth_append)
    next
      case False
      then have "p = length (trace s)" using that by simp
      then show ?thesis using len el line_step [OF nd] by simp
    qed
    have 2: "ev_line (snd (?tr ! p)) < ev_line (snd (?tr ! q))"
      if "q < length ?tr" "p < q" "fst (?tr ! p) = fst (?tr ! q)" for p q
    proof (cases "q < length (trace s)")
      case True
      then show ?thesis using assms that by (simp add: trace_ok_def nth_append)
    next
      case False
      then have q: "q = length (trace s)" using that by simp
      then have p: "p < length (trace s)" using that by simp
      have "fst (trace s ! p) = i" using that(3) q p by (simp add: nth_append)
      moreover have "ev_line (snd (trace s ! p)) < line (pc (tasks s ! fst (trace s ! p)))"
        using assms p by (simp add: trace_ok_def)
      ultimately have "ev_line (snd (trace s ! p)) < line (pc ?t)" by simp
      then show ?thesis using q p el by (simp add: nth_append)
    qed
    show ?thesis unfolding trace_ok_def tr ts using 1 2 by blast
  qed
qed

lemma trace_ok_launch:
  assumes "trace_ok s"
  shows "trace_ok (Collect_launch envs s)"
  using assms by (auto simp: trace_ok_def Collect_launch_def nth_append)

lemma trace_ok_act: "trace_ok s \<Longrightarrow> trace_ok (act a s)"
  by (cases a) (simp_all add: trace_ok_step trace_ok_launch)

lemma trace_ok_exec: "trace_ok s \<Longrightarrow> trace_ok (exec as s)"
  by (induction as arbitrary: s) (simp_all add: trace_ok_act)

lemma trace_ok_boot: "trace_ok (boot cfg)"
  by (simp add: trace_ok_def boot_def register_def)

lemma trace_ok_before:
  assumes "trace_ok s" and "ev_line a < ev_line b"
  shows "before (trace s) i a b"
  unfolding before_def
proof (intro allI impI)
  fix p q
  assume p: "p < length (trace s)" and q: "q < length (trace s)"
    and pq: "trace s ! p = (i, a) \<and> trace s ! q = (i, b)"
  show "p < q"
  proof (rule ccontr)
    assume "\<not> p < q"
    then consider "p = q" | "q < p" by linarith
    then show False
    proof cases
      case 1
      then have "a = b" using pq by auto
      then show ?thesis using assms(2) by simp
    next
      case 2
      have ord: "\<forall>q < length (trace s). \<forall>p < q.
                   fst (trace s ! p) = fst (trace s ! q) \<longrightarrow>
                   ev_line (snd (trace s ! p)) < ev_line (snd (trace s ! q))"
        using assms(1) by (simp add: trace_ok_def)
      have "fst (trace s ! q) = fst (trace s ! p)" using pq by simp
      with ord p 2 have "ev_line (snd (trace s ! q)) < ev_line (snd (trace s ! p))"
        by blast
      then show ?thesis using pq assms(2) by simp
    qed
  qed
qed

section \<open>The samples on the channel\<close>

lemma step_samples_shape:
  assumes "m \<in> set (step_samples t e)"
  shows "desc m \<in> {totalDesc e, totalError e, latency e} \<and> labelValues m = [host t]"
  using assms by (cases "pc t") (auto simp: step_samples_def MustNewConstMetric_def)

lemma out_ok_step:
  assumes "out_ok s"
  shows "out_ok (goroutine_step i s)"
proof (cases "moves i s")
  case False
  from stuck_step [OF False] show ?thesis
    using assms by (auto simp: out_ok_def)
next
  case True
  then have len: "i < length (tasks s)" by (rule moves_less)
  let ?t = "tasks s ! i"
  let ?s' = "goroutine_step i s"
  have tin: "?t \<in> set (tasks s)" using len by simp
  have hin: "host ?t \<in> set (hosts (collector s))" using assms tin by (simp add: out_ok_def)
  have mem: "t = step_task ?t \<or> t \<in> set (tasks s)" if "t \<in> set (tasks ?s')" for t
    using that set_update_subset_insert [of "tasks s" i "step_task ?t"] True
    by (auto simp: tasks_step)
  have 1: "\<forall>t \<in> set (tasks ?s'). host t \<in> set (hosts (collector ?s'))"
    using assms hin by (auto simp: out_ok_def fixed_step host_step_task dest!: mem)
  have 4: "\<forall>m \<in> set (ch ?s').
        desc m \<in> {totalDesc (collector ?s'), totalError (collector ?s'), latency (collector ?s')} \<and>
        (\<exists>h \<in> set (hosts (collector ?s')). labelValues m = [h])"
  proof
    fix m assume "m \<in> set (ch ?s')"
    then consider "m \<in> set (ch s)" | "m \<in> set (step_samples ?t (collector s))"
      using True by (auto simp: ch_step)
    then show "desc m \<in> {totalDesc (collector ?s'), totalError (collector ?s'), latency (collector ?s')} \<and>
        (\<exists>h \<in> set (hosts (collector ?s')). labelValues m = [h])"
    proof cases
      case 1
      then show ?thesis using assms by (simp add: out_ok_def fixed_step)
    next
      case 2
      then show ?thesis using step_samples_shape [OF 2] hin by (simp add: fixed_step)
    qed
  qed
  show ?thesis using 1 4 unfolding out_ok_def by blast
qed

lemma out_ok_launch:
  assumes "out_ok s"
  shows "out_ok (Collect_launch envs s)"
proof -
  let ?new = "map (\<lambda>(j, x). go_resolveHost (length (wgs s)) x (envs j)) (enumerate 0 (hosts (collector s)))"
  have new: "host t \<in> set (hosts (collector s))" if "t \<in> set ?new" for t
    using that by (auto simp: go_resolveHost_def in_set_enumerate_eq)
  show ?thesis
    using assms new
    by (auto simp: out_ok_def Collect_launch_def)
qed

lemma out_ok_act: "out_ok s \<Longrightarrow> out_ok (act a s)"
  by (cases a) (simp_all add: out_ok_step out_ok_launch)

lemma out_ok_exec: "out_ok s \<Longrightarrow> out_ok (exec as s)"
  by (induction as arbitrary: s) (simp_all add: out_ok_act)

lemma out_ok_boot: "out_ok (boot cfg)"
  by (simp add: out_ok_def boot_def register_def)

lemma out_ok_reach: "out_ok (exec as (boot cfg))"
  by (simp add: out_ok_exec out_ok_boot)

section \<open>The history of a goroutine holds the events of the lines it has passed\<close>























section \<open>The values written, read and sent\<close>

















section \<open>A goroutine run alone is resolveHost\<close>



text \<open>
  The latency a probe sends: the time of the lookup, and after a failed lookup also the
  time lines 92-96 take.
\<close>

lemma resolveHost_latency:
  "val (last (fst (snd (resolveHost h en (e, chan, lg))))) =
     Seconds (lookupDur en + (case lookupErr en of None \<Rightarrow> 0 | Some _ \<Rightarrow> errDur en))"
  by (simp add: resolveHost_def Let_def clock99_def MustNewConstMetric_def)

section \<open>The empty registry\<close>

lemma step_no_tasks: "tasks s = [] \<Longrightarrow> goroutine_step i s = s"
  by (simp add: goroutine_step_def)

lemma launch_no_hosts:
  "hosts (collector s) = [] \<Longrightarrow> Collect_launch envs s = s\<lparr>wgs := wgs s @ [0]\<rparr>"
  by (simp add: Collect_launch_def)

lemma exec_empty_registry:
  assumes "hosts (collector s) = []" and "tasks s = []" and "\<not> fatal s"
  shows "exec as s = s\<lparr>wgs := wgs s @ replicate (scrapes as) 0\<rparr>"
  using assms
proof (induction as arbitrary: s)
  case Nil
  then show ?case by (simp add: scrapes_def)
next
  case (Cons a as)
  show ?case
  proof (cases a)
    case (Scrape envs)
    let ?s' = "s\<lparr>wgs := wgs s @ [0]\<rparr>"
    have "exec (a # as) s = exec as ?s'"
      using Scrape Cons.prems by (simp add: launch_no_hosts)
    also have "\<dots> = ?s'\<lparr>wgs := wgs ?s' @ replicate (scrapes as) 0\<rparr>"
      using Cons.prems by (intro Cons.IH) simp_all
    finally show ?thesis using Scrape by (simp add: scrapes_Cons replicate_append_same [symmetric] del: replicate_append_same)
  next
    case (Sched i)
    then show ?thesis using Cons by (simp add: step_no_tasks scrapes_Cons)
  qed
qed

section \<open>Evaluated runs\<close>

lemma failing_trace:
  "trace (exec failing_run (boot main_config)) ! 2 = (0, EvIncError 1) \<and>
   trace (exec failing_run (boot main_config)) ! 5 = (0, EvIncAttempt 1) \<and>
   length (trace (exec failing_run (boot main_config))) = 20"
  by code_simp

section \<open>The claims\<close>

text \<open>
  C1, as amended. After \<open>N\<close> calls of \<open>Collect\<close> that have all returned (scrapes may have
  overlapped on the way), the attempt counter of a host \<open>h\<close> is \<open>N\<close> times the number of
  times \<open>h\<close> stands in the registry, as a 64-bit integer; read as a signed number it is
  exactly that product as long as the product is below \<open>2 ^ 63\<close>. For a host listed once
  that is \<open>N\<close>.
\<close>

theorem C1_attempts_after_cycles:
  assumes "\<forall>k < scrapes as. Collect_returns k (exec as (boot cfg))"
  shows "map_index (totalCount (collector (exec as (boot cfg)))) h
           = of_nat (scrapes as * count_list (Hosts cfg) h) \<and>
         (scrapes as * count_list (Hosts cfg) h < 2 ^ 63 \<longrightarrow>
            sint (map_index (totalCount (collector (exec as (boot cfg)))) h)
              = int (scrapes as * count_list (Hosts cfg) h))"
proof -
  let ?s = "exec as (boot cfg)"
  have wg: "wg_ok ?s" by (simp add: wg_ok_exec wg_ok_boot)
  have le: "length (wgs ?s) \<le> scrapes as"
    using length_wgs_exec [of as "boot cfg"] by (simp add: wgs_boot)
  have ge: "scrapes as \<le> length (wgs ?s)"
  proof (rule ccontr)
    assume "\<not> scrapes as \<le> length (wgs ?s)"
    then have "length (wgs ?s) < scrapes as" by simp
    then have "Collect_returns (length (wgs ?s)) ?s" using assms by blast
    then show False by (simp add: Collect_returns_def)
  qed
  have n: "length (wgs ?s) = scrapes as" using le ge by simp
  have "\<forall>t \<in> set (tasks ?s). pc t = Done"
    using all_returned_Done [OF wg] assms n by auto
  then have "attempts h (tasks ?s) = probes h (tasks ?s)" by (rule attempts_all_Done)
  also have "\<dots> = scrapes as * count_list (Hosts cfg) h"
    using wg n by (simp add: wg_ok_def hosts_exec hosts_boot)
  finally have a: "attempts h (tasks ?s) = scrapes as * count_list (Hosts cfg) h" .
  have "counts_ok ?s" by (simp add: counts_ok_exec counts_ok_boot)
  then have "map_index (totalCount (collector ?s)) h = of_nat (attempts h (tasks ?s))"
    by (simp add: counts_ok_def)
  then have m: "map_index (totalCount (collector ?s)) h
                  = of_nat (scrapes as * count_list (Hosts cfg) h)"
    by (simp only: a)
  show ?thesis
  proof (intro conjI impI)
    show "map_index (totalCount (collector ?s)) h
            = of_nat (scrapes as * count_list (Hosts cfg) h)"
      by (rule m)
  next
    assume "scrapes as * count_list (Hosts cfg) h < 2 ^ 63"
    then show "sint (map_index (totalCount (collector ?s)) h)
                 = int (scrapes as * count_list (Hosts cfg) h)"
      unfolding m by (rule sint_of_nat_small)
  qed
qed

text \<open>
  The theorem at the configuration of \<open>main\<close>: after one cycle the counter of
  \<open>google.com\<close> is 1.
\<close>

theorem C1_witness:
  "Collect_returns 0 (exec one_cycle (boot main_config)) \<and>
   scrapes one_cycle = 1 \<and> count_list (Hosts main_config) ''google.com'' = 1 \<and>
   map_index (totalCount (collector (exec one_cycle (boot main_config)))) ''google.com'' = 1 \<and>
   sint (map_index (totalCount (collector (exec one_cycle (boot main_config)))) ''google.com'') = 1"
proof -
  have r: "Collect_returns 0 (exec one_cycle (boot main_config))" by code_simp
  have n: "scrapes one_cycle = 1" by code_simp
  have c: "count_list (Hosts main_config) ''google.com'' = 1" by code_simp
  have "\<forall>k < scrapes one_cycle. Collect_returns k (exec one_cycle (boot main_config))"
    using r n by simp
  from C1_attempts_after_cycles [OF this, of "''google.com''"]
  show ?thesis using r n c by simp
qed

text \<open>
  C1 as stated fails when a host is listed twice: after one completed cycle its counter
  is 2, not 1.
\<close>

theorem C1_counterexample:
  "''example.org'' \<in> set (Hosts dup_config) \<and>
   scrapes dup_run = 1 \<and>
   Collect_returns 0 (exec dup_run (boot dup_config)) \<and>
   sint (map_index (totalCount (collector (exec dup_run (boot dup_config)))) ''example.org'') = 2 \<and>
   sint (map_index (totalCount (collector (exec dup_run (boot dup_config)))) ''example.org'')
     \<noteq> int (scrapes dup_run)"
  by code_simp



text \<open>
  C3, as amended. In every reachable state with fewer than \<open>2 ^ 63\<close> probes started,
  the error count of a host is at most its attempt count plus the number of its probes
  that stand between the two increments (the error is counted at lines 92-94, the
  attempt only at lines 101-103). So the error count is at most the attempt count
  whenever no failed probe of the host stands in that window, in particular when no
  probe is running.
\<close>

theorem C3_errors_le_attempts:
  assumes "length (tasks (exec as (boot cfg))) < 2 ^ 63"
  shows "sint (map_index (totalErrorCount (collector (exec as (boot cfg)))) h)
           \<le> sint (map_index (totalCount (collector (exec as (boot cfg)))) h)
              + int (window h (tasks (exec as (boot cfg))))"
proof -
  let ?s = "exec as (boot cfg)"
  have c: "counts_ok ?s" by (simp add: counts_ok_exec counts_ok_boot)
  have "errors h (tasks ?s) \<le> length (tasks ?s)" "attempts h (tasks ?s) \<le> length (tasks ?s)"
    by (simp_all add: errors_def attempts_def)
  then have b: "errors h (tasks ?s) < 2 ^ 63" "attempts h (tasks ?s) < 2 ^ 63"
    using assms by simp_all
  have "sint (map_index (totalErrorCount (collector ?s)) h) = int (errors h (tasks ?s))"
    and "sint (map_index (totalCount (collector ?s)) h) = int (attempts h (tasks ?s))"
    using c b by (simp_all add: counts_ok_def sint_of_nat_small)
  then show ?thesis using errors_le [of h "tasks ?s"] by simp
qed

text \<open>
  The theorem at the state in which the first probe of a cycle has failed and has just
  counted its error: one probe stands in the window.
\<close>

theorem C3_witness:
  "length (tasks (exec failing_prefix (boot main_config))) < 2 ^ 63 \<and>
   window ''example.org'' (tasks (exec failing_prefix (boot main_config))) = 1 \<and>
   sint (map_index (totalErrorCount (collector (exec failing_prefix (boot main_config)))) ''example.org'')
     \<le> sint (map_index (totalCount (collector (exec failing_prefix (boot main_config)))) ''example.org'') + 1"
proof -
  have "length (tasks (exec failing_prefix (boot main_config))) = 2" by code_simp
  then have l: "length (tasks (exec failing_prefix (boot main_config))) < 2 ^ 63" by simp
  have w: "window ''example.org'' (tasks (exec failing_prefix (boot main_config))) = 1" by code_simp
  from C3_errors_le_attempts [OF l, of "''example.org''"]
  show ?thesis using l w by simp
qed

text \<open>
  C3 as stated fails in that same state: the error count of \<open>example.org\<close> is 1 and
  its attempt count is still 0.
\<close>

theorem C3_counterexample:
  "\<not> sint (map_index (totalErrorCount (collector (exec failing_prefix (boot main_config)))) ''example.org'')
       \<le> sint (map_index (totalCount (collector (exec failing_prefix (boot main_config)))) ''example.org'')"
  by code_simp

text \<open>
  C4, as amended. Within one probe the increment of the error counter (when the lookup
  fails) comes before the increment of the attempt counter, and both increments come
  before the two reads of the counters whose values are sent, in every run and for
  every goroutine.
\<close>

theorem C4_order_in_probe:
  "before (trace (exec as (boot cfg))) i (EvIncError v) (EvIncAttempt w) \<and>
   before (trace (exec as (boot cfg))) i (EvIncAttempt w) (EvSendTotal x) \<and>
   before (trace (exec as (boot cfg))) i (EvIncAttempt w) (EvSendError y) \<and>
   before (trace (exec as (boot cfg))) i (EvIncError v) (EvSendTotal x) \<and>
   before (trace (exec as (boot cfg))) i (EvIncError v) (EvSendError y)"
  by (simp add: trace_ok_before trace_ok_exec trace_ok_boot)

text \<open>
  The theorem at a cycle whose lookups fail: the increment of the error counter is the
  third event of goroutine 0, the increment of the attempt counter its sixth, and the
  reads of the counters its seventh and eighth.
\<close>

theorem C4_witness:
  "trace (exec failing_run (boot main_config)) ! 2 = (0, EvIncError 1) \<and>
   trace (exec failing_run (boot main_config)) ! 5 = (0, EvIncAttempt 1) \<and>
   trace (exec failing_run (boot main_config)) ! 6 = (0, EvSendTotal 1) \<and>
   trace (exec failing_run (boot main_config)) ! 7 = (0, EvSendError 1) \<and>
   before (trace (exec failing_run (boot main_config))) 0 (EvIncError 1) (EvIncAttempt 1) \<and>
   before (trace (exec failing_run (boot main_config))) 0 (EvIncAttempt 1) (EvSendTotal 1) \<and>
   before (trace (exec failing_run (boot main_config))) 0 (EvIncAttempt 1) (EvSendError 1)"
proof -
  have "trace (exec failing_run (boot main_config)) ! 2 = (0, EvIncError 1) \<and>
   trace (exec failing_run (boot main_config)) ! 5 = (0, EvIncAttempt 1) \<and>
   trace (exec failing_run (boot main_config)) ! 6 = (0, EvSendTotal 1) \<and>
   trace (exec failing_run (boot main_config)) ! 7 = (0, EvSendError 1)"
    by code_simp
  then show ?thesis
    using C4_order_in_probe [of failing_run main_config 0 1 1 1 1] by simp
qed

text \<open>
  C4 as stated fails there: the increment of the attempt counter (position 5 of the
  history) does not come before the increment of the error counter (position 2).
\<close>

theorem C4_counterexample:
  "trace (exec failing_run (boot main_config)) ! 2 = (0, EvIncError 1) \<and>
   trace (exec failing_run (boot main_config)) ! 5 = (0, EvIncAttempt 1) \<and>
   \<not> before (trace (exec failing_run (boot main_config))) 0 (EvIncAttempt 1) (EvIncError 1)"
proof -
  let ?tr = "trace (exec failing_run (boot main_config))"
  have e: "?tr ! 2 = (0, EvIncError 1)" and a: "?tr ! 5 = (0, EvIncAttempt 1)"
    and n: "length ?tr = 20"
    using failing_trace by simp_all
  have "\<not> before ?tr 0 (EvIncAttempt 1) (EvIncError 1)"
  proof
    assume "before ?tr 0 (EvIncAttempt 1) (EvIncError 1)"
    then have "5 < length ?tr \<longrightarrow> 2 < length ?tr \<longrightarrow>
                 ?tr ! 5 = (0, EvIncAttempt 1) \<and> ?tr ! 2 = (0, EvIncError 1) \<longrightarrow> (5::nat) < 2"
      unfolding before_def by blast
    then show False using e a n by simp
  qed
  then show ?thesis using e a by simp
qed

text \<open>
  C5, as amended. The three descriptors of the collector, and therefore every sample
  sent in any run, are named \<open>dns_exporter_resolution_total\<close>,
  \<open>dns_exporter_resolution_error_total\<close> and \<open>dns_exporter_resolution_seconds\<close>: the
  namespace of line 14 is joined to each name. Each has the single label \<open>host\<close>, and each
  sample gives it one host of the registry as its value.
\<close>

theorem C5_metric_names:
  "map fqName (Describe (collector (exec as (boot cfg))))
     = [''dns_exporter_resolution_total'', ''dns_exporter_resolution_error_total'',
        ''dns_exporter_resolution_seconds''] \<and>
   (\<forall>m \<in> set (ch (exec as (boot cfg))).
      fqName (desc m) \<in> {''dns_exporter_resolution_total'',
                         ''dns_exporter_resolution_error_total'',
                         ''dns_exporter_resolution_seconds''} \<and>
      variableLabels (desc m) = [''host''] \<and>
      (\<exists>h \<in> set (Hosts cfg). labelValues m = [h]))"
proof -
  let ?s = "exec as (boot cfg)"
  have d: "totalDesc (collector ?s) = NewDesc ''dns_exporter_resolution_total''
              ''Total number of DNS resolutions.'' [''host''] []"
          "totalError (collector ?s) = NewDesc ''dns_exporter_resolution_error_total''
              ''Total number of DNS resolution errors.'' [''host''] []"
          "latency (collector ?s) = NewDesc ''dns_exporter_resolution_seconds''
              ''Time taken to resolve DNS.'' [''host''] []"
    using descs_exec [of as "boot cfg"] by (simp_all add: descs_boot)
  have h: "hosts (collector ?s) = Hosts cfg" by (simp add: hosts_exec hosts_boot)
  have 1: "map fqName (Describe (collector ?s))
     = [''dns_exporter_resolution_total'', ''dns_exporter_resolution_error_total'',
        ''dns_exporter_resolution_seconds'']"
    by (simp add: Describe_def d NewDesc_def)
  have 2: "\<forall>m \<in> set (ch ?s).
      desc m \<in> {totalDesc (collector ?s), totalError (collector ?s), latency (collector ?s)} \<and>
      (\<exists>h \<in> set (hosts (collector ?s)). labelValues m = [h])"
    using out_ok_reach [of as cfg] by (simp add: out_ok_def)
  show ?thesis
  proof (intro conjI ballI)
    show "map fqName (Describe (collector ?s))
     = [''dns_exporter_resolution_total'', ''dns_exporter_resolution_error_total'',
        ''dns_exporter_resolution_seconds'']" by (rule 1)
  next
    fix m assume m: "m \<in> set (ch ?s)"
    then have dm: "desc m \<in> {totalDesc (collector ?s), totalError (collector ?s), latency (collector ?s)}"
      using 2 by blast
    then show "fqName (desc m) \<in> {''dns_exporter_resolution_total'',
                         ''dns_exporter_resolution_error_total'',
                         ''dns_exporter_resolution_seconds''}"
      unfolding d by (auto simp: NewDesc_def)
    from dm show "variableLabels (desc m) = [''host'']"
      unfolding d by (auto simp: NewDesc_def)
    from m 2 show "\<exists>h \<in> set (Hosts cfg). labelValues m = [h]"
      unfolding h by blast
  qed
qed

text \<open>
  The theorem at the third sample of a cycle: the latency of \<open>example.org\<close>.
\<close>

theorem C5_witness:
  "ch (exec mixed_run (boot main_config)) ! 2 \<in> set (ch (exec mixed_run (boot main_config))) \<and>
   fqName (desc (ch (exec mixed_run (boot main_config)) ! 2)) = ''dns_exporter_resolution_seconds'' \<and>
   variableLabels (desc (ch (exec mixed_run (boot main_config)) ! 2)) = [''host''] \<and>
   labelValues (ch (exec mixed_run (boot main_config)) ! 2) = [''example.org'']"
proof -
  let ?c = "ch (exec mixed_run (boot main_config))"
  have l: "2 < length ?c" by code_simp
  then have m: "?c ! 2 \<in> set ?c" by (rule nth_mem)
  have f: "fqName (desc (?c ! 2)) = ''dns_exporter_resolution_seconds''"
    and v: "labelValues (?c ! 2) = [''example.org'']"
    by code_simp+
  from C5_metric_names [of mixed_run main_config] m
  have "variableLabels (desc (?c ! 2)) = [''host'']" by blast
  then show ?thesis using m f v by simp
qed

text \<open>
  C5 as stated fails at the first sample of that cycle: its name is not
  \<open>resolution_total\<close>.
\<close>

theorem C5_counterexample:
  "fqName (desc (ch (exec mixed_run (boot main_config)) ! 0)) = ''dns_exporter_resolution_total'' \<and>
   fqName (desc (ch (exec mixed_run (boot main_config)) ! 0)) \<noteq> ''resolution_total''"
  by code_simp

text \<open>
  C6. \<open>resolveHost\<close> has no result and hands no error on, and the error of a lookup
  ends in the counter and in the log. But the cycle need not complete. Line 105 reads
  \<open>e.totalCount\<close> without \<open>totalCountMutex\<close>, while the probe of another host of the
  same scrape may be in the middle of the assignment of line 102 to the same map (and
  line 106 likewise against line 93); the Go runtime stops the process at such a read.
  In the run below, of the configuration of \<open>main\<close>, the lookup of \<open>example.org\<close> fails.
  Its probe counts and logs the failure and reaches line 105 while the probe of
  \<open>google.com\<close> is in the middle of line 102: the process stops, the failed host has
  no sample on the channel, the \<open>WaitGroup\<close> still counts two, so \<open>Collect\<close> does not
  return, and no further turn of the scheduler changes that.
\<close>

theorem C6_race_aborts_cycle:
  "lookupErr lookup_fails \<noteq> None \<and>
   pc (tasks (exec race_run (boot main_config)) ! 0) = L105 \<and>
   pc (tasks (exec race_run (boot main_config)) ! 1) = L102w \<and>
   fatal (exec race_run (boot main_config)) \<and>
   logOut (exec race_run (boot main_config)) = [logLine ''example.org'' (Some ''no such host'')] \<and>
   ch (exec race_run (boot main_config)) = [] \<and>
   wgs (exec race_run (boot main_config)) = [2] \<and>
   \<not> Collect_returns 0 (exec race_run (boot main_config)) \<and>
   ch (exec (race_run @ race_rest) (boot main_config)) = [] \<and>
   \<not> Collect_returns 0 (exec (race_run @ race_rest) (boot main_config))"
  by code_simp

text \<open>
  C7. The latency sent is the time between the clock readings of line 88 and line 99.
  Line 99 comes after the whole \<open>if\<close> of lines 91-97, so when the lookup fails the
  latency also holds the time spent waiting for the mutex and writing the log line: here
  the lookup takes 10 ns, and the sample says 15 ns. The value is made from the clock
  readings of this probe alone, not from anything kept in the collector.
\<close>

theorem C7_latency_on_failure:
  "lookupDur lookup_fails = 10 \<and>
   val (last (fst (snd (resolveHost ''bad.invalid'' lookup_fails
                          (collector (boot main_config), [], []))))) = Seconds 15"
  by code_simp

text \<open>
  C8. The reads of lines 105 and 106 are steps of their own, outside the mutexes that
  guard the increments, so a probe of the same host from an overlapping scrape can
  increment in between. In the run below the increment of goroutine 0 writes 1, the
  increment of goroutine 2 writes 2, and the attempt total goroutine 0 then sends is 2.
\<close>

theorem C8_read_sees_other_probe:
  "trace (exec overlap_run (boot main_config)) ! 3 = (0, EvIncAttempt 1) \<and>
   trace (exec overlap_run (boot main_config)) ! 7 = (2, EvIncAttempt 2) \<and>
   trace (exec overlap_run (boot main_config)) ! 8 = (0, EvSendTotal 2) \<and>
   val (ch (exec overlap_run (boot main_config)) ! 0) = Float64OfInt 2"
  by code_simp

text \<open>
  C9. With an empty registry, whatever calls of \<open>Collect\<close> and turns of the scheduler
  follow, the state stays as it was built, but for the list of \<open>WaitGroup\<close> counters: no
  goroutine is started, so no lookup is made, no counter changes and no sample is sent;
  the counter of each call is zero, so each call returns at once.
\<close>

theorem C9_empty_registry:
  assumes "Hosts cfg = []"
  shows "exec as (boot cfg) = (boot cfg)\<lparr>wgs := replicate (scrapes as) 0\<rparr> \<and>
         (\<forall>k < scrapes as. Collect_returns k (exec as (boot cfg)))"
proof -
  have h: "hosts (collector (boot cfg)) = []" using assms by (simp add: hosts_boot)
  have t: "tasks (boot cfg) = []" by (simp add: boot_def register_def)
  have f: "\<not> fatal (boot cfg)" by (simp add: boot_def register_def)
  have "exec as (boot cfg) = (boot cfg)\<lparr>wgs := wgs (boot cfg) @ replicate (scrapes as) 0\<rparr>"
    using h t f by (rule exec_empty_registry)
  then have e: "exec as (boot cfg) = (boot cfg)\<lparr>wgs := replicate (scrapes as) 0\<rparr>"
    by (simp add: wgs_boot)
  show ?thesis unfolding e by (simp add: Collect_returns_def)
qed

text \<open>
  The theorem at the empty configuration, with two scrapes.
\<close>

theorem C9_witness:
  "Hosts empty_config = [] \<and> scrapes empty_run = 2 \<and>
   exec empty_run (boot empty_config) = (boot empty_config)\<lparr>wgs := [0, 0]\<rparr> \<and>
   Collect_returns 0 (exec empty_run (boot empty_config)) \<and>
   Collect_returns 1 (exec empty_run (boot empty_config)) \<and>
   ch (exec empty_run (boot empty_config)) = [] \<and>
   trace (exec empty_run (boot empty_config)) = [] \<and>
   totalCount (collector (exec empty_run (boot empty_config))) = Map.empty \<and>
   totalErrorCount (collector (exec empty_run (boot empty_config))) = Map.empty"
proof -
  have h: "Hosts empty_config = []" by (simp add: empty_config_def)
  have n: "scrapes empty_run = 2" by (simp add: empty_run_def scrapes_def)
  note inst = C9_empty_registry [OF h, of empty_run]
  from inst have e: "exec empty_run (boot empty_config) = (boot empty_config)\<lparr>wgs := [0, 0]\<rparr>"
    by (simp add: n eval_nat_numeral)
  from inst have "\<forall>k < scrapes empty_run. Collect_returns k (exec empty_run (boot empty_config))"
    by (rule conjunct2)
  then have r: "\<forall>k < 2. Collect_returns k (exec empty_run (boot empty_config))"
    unfolding n by simp
  have r0: "Collect_returns 0 (exec empty_run (boot empty_config))"
    using r by (simp del: One_nat_def)
  have r1: "Collect_returns 1 (exec empty_run (boot empty_config))"
    using r by (simp del: One_nat_def)
  have c: "ch (boot empty_config) = []" "trace (boot empty_config) = []"
     "totalCount (collector (boot empty_config)) = Map.empty"
     "totalErrorCount (collector (boot empty_config)) = Map.empty"
    by (simp_all add: boot_def register_def NewDNSCollector_def)
  show ?thesis
    apply (intro conjI)
            apply (rule h)
           apply (rule n)
          apply (rule e)
         apply (rule r0)
        apply (rule r1)
       apply (simp_all only: e)
       apply (simp_all add: c)
    done
qed

text \<open>
  C10. For every configuration, any list of host names and the empty one too, the
  constructor \<open>NewDNSCollector\<close> returns a non-nil collector and a nil error; the
  collector holds the configured hosts, and both of its counter maps are empty.
\<close>

theorem C10_constructor_never_fails:
  "\<exists>e. NewDNSCollector config = (Some e, None) \<and> hosts e = Hosts config \<and>
       totalCount e = Map.empty \<and> totalErrorCount e = Map.empty"
  by (simp add: NewDNSCollector_def)

end
